theory Spec2Isabelle
  imports Main "HOL-Library.Sublist"
begin

section \<open>Python string primitives used by \<open>taipo/common.py\<close>\<close>

text \<open>
  Texts are Python \<open>str\<close> values, modelled as \<open>string\<close>. All delimiters the
  code looks for are single ASCII characters. Indices are Python ints, because
  \<open>str.find\<close> answers \<open>-1\<close> when nothing is found and the code feeds that
  value back into slices.
\<close>

definition str_find :: "string \<Rightarrow> char \<Rightarrow> int" where
  \<comment> \<open>\<open>s.find(c)\<close> for a one-character needle: first index, or \<open>-1\<close>.\<close>
  "str_find s c = (if c \<in> set s then int (length (takeWhile (\<lambda>x. x \<noteq> c) s)) else - 1)"

definition clamp_index :: "nat \<Rightarrow> int \<Rightarrow> nat" where
  \<comment> \<open>How a slice bound is read against a string of length \<open>n\<close>: a negative bound
      counts from the end, and every bound is clipped into \<open>0..n\<close>.\<close>
  "clamp_index n i = (if i < 0 then nat (max 0 (int n + i)) else min (nat i) n)"

definition slice_from :: "string \<Rightarrow> int \<Rightarrow> string" where
  \<comment> \<open>\<open>s[a:]\<close>\<close>
  "slice_from s a = drop (clamp_index (length s) a) s"

definition slice :: "string \<Rightarrow> int \<Rightarrow> int \<Rightarrow> string" where
  \<comment> \<open>\<open>s[a:b]\<close>; empty when the upper bound is not above the lower one.\<close>
  "slice s a b =
     (let lo = clamp_index (length s) a; hi = clamp_index (length s) b
      in take (hi - lo) (drop lo s))"

function str_replace :: "string \<Rightarrow> string \<Rightarrow> string \<Rightarrow> string" where
  \<comment> \<open>\<open>s.replace(old, new)\<close>: every non-overlapping occurrence, left to right.\<close>
  "str_replace [] old new = (if old = [] then new else [])"
| "str_replace (c # cs) old new =
     (if old = [] then new @ c # str_replace cs old new
      else if prefix old (c # cs) then new @ str_replace (drop (length old) (c # cs)) old new
      else c # str_replace cs old new)"
  by pat_completeness auto
termination
  by (relation "measure (\<lambda>(s, old, new). length s)") auto

fun str_split :: "char \<Rightarrow> string \<Rightarrow> string list" where
  \<comment> \<open>\<open>s.split(c)\<close> with an explicit one-character separator: empty pieces are kept.\<close>
  "str_split c [] = [[]]"
| "str_split c (x # xs) =
     (if x = c then [] # str_split c xs
      else (let r = str_split c xs in (x # hd r) # tl r))"

section \<open>The curly-bracket scanner\<close>

text \<open>
  One turn of the \<open>while\<close> loop of \<open>gen_curly_ents\<close>: \<open>None\<close> when the loop
  condition fails (no \<open>[\<close> left), otherwise the pair that is yielded and the text the
  next turn starts from.
\<close>

definition gen_step :: "string \<Rightarrow> ((string \<times> string) \<times> string) option" where
  "gen_step text =
     (if str_find text CHR ''['' = - 1 then None
      else
        let sq1 = str_find text CHR ''['';
            sq2 = str_find (slice_from text sq1) CHR '']'';
            br1 = str_find (slice_from text (sq1 + sq2)) CHR ''{'';
            br2 = str_find (slice_from text (sq1 + sq2 + br1)) CHR ''}'';
            ent = slice text sq1 (sq1 + sq2 + 1);
            curly_bit = slice text (sq1 + sq2 + br1) (sq1 + sq2 + br1 + br2 + 1)
        in Some ((ent, curly_bit), slice_from text (sq1 + sq2 + br1 + br2)))"

text \<open>
  Running the generator to exhaustion. The loop has no bound, so the list of all yielded
  pairs is a partial function: \<open>None\<close> stands for a scan that never finishes.
\<close>

partial_function (option) gen_curly_ents :: "string \<Rightarrow> (string \<times> string) list option" where
  "gen_curly_ents text =
     (case gen_step text of
        None \<Rightarrow> Some []
      | Some (y, text') \<Rightarrow> Option.bind (gen_curly_ents text') (\<lambda>ys. Some (y # ys)))"

declare gen_curly_ents.simps [code]

section \<open>Curly metadata tokens\<close>

definition clean_curly :: "string \<Rightarrow> string list" where
  \<comment> \<open>The chain of \<open>replace\<close> calls and the final \<open>split(" ")\<close>, in the code's order.\<close>
  "clean_curly curly =
     str_split CHR '' ''
       (str_replace (str_replace (str_replace (str_replace curly '':'' '' '') ''{'' []) ''}'' [])
          '','' '' '')"

definition curly_tokens :: "(string \<times> string) list \<Rightarrow> string list" where
  \<comment> \<open>What the two inner loops append to \<open>results\<close> for the pairs of one text.\<close>
  "curly_tokens items =
     concat (map (\<lambda>(ent, curly). filter (\<lambda>item. item \<noteq> []) (clean_curly curly)) items)"

fun curly_results :: "string list \<Rightarrow> string list option" where
  \<comment> \<open>The list \<open>results\<close> when the outer loop ends; \<open>None\<close> when some scan never ends.\<close>
  "curly_results [] = Some []"
| "curly_results (text # texts) =
     (case gen_curly_ents text of
        None \<Rightarrow> None
      | Some items \<Rightarrow>
          (case curly_results texts of
             None \<Rightarrow> None
           | Some rest \<Rightarrow> Some (curly_tokens items @ rest)))"

definition list_of_set :: "'a list \<Rightarrow> 'a list \<Rightarrow> bool" where
  \<comment> \<open>\<open>rs\<close> is a possible value of \<open>list(set(xs))\<close>: Python fixes the elements, each
      once, and leaves their order open.\<close>
  "list_of_set xs rs \<longleftrightarrow> distinct rs \<and> set rs = set xs"

definition curly_entity_items :: "string list \<Rightarrow> string list \<Rightarrow> bool" where
  \<comment> \<open>\<open>curly_entity_items texts rs\<close>: the call returns, and \<open>rs\<close> is a list it may return.\<close>
  "curly_entity_items texts rs =
     (case curly_results texts of None \<Rightarrow> False | Some xs \<Rightarrow> list_of_set xs rs)"

section \<open>The \<open>parse\<close> formats\<close>

text \<open>
  \<open>parse.compile\<close> turns a format into a regular expression: literal text is
  matched as it stands and a field without a type, such as \<open>{entity}\<close>, becomes the
  lazy group \<open>(.+?)\<close> under \<open>re.DOTALL\<close>, so a field takes the shortest non-empty
  run of arbitrary characters after which the rest of the format still matches. The
  literals of the two formats in the code are brackets and parentheses, on which the
  library's case folding has no effect.
\<close>

datatype part = Lit char | Field

fun first_some :: "'a option list \<Rightarrow> 'a option" where
  "first_some [] = None"
| "first_some (None # os) = first_some os"
| "first_some (Some r # os) = Some r"

fun match_parts :: "part list \<Rightarrow> string \<Rightarrow> (string list \<times> string) option" where
  \<comment> \<open>Match the format at the start of the string: the field values and the text left.\<close>
  "match_parts [] s = Some ([], s)"
| "match_parts (Lit c # ps) s =
     (case s of [] \<Rightarrow> None | x # xs \<Rightarrow> if x = c then match_parts ps xs else None)"
| "match_parts (Field # ps) s =
     first_some
       (map (\<lambda>k. map_option (\<lambda>(fs, r). (take k s # fs, r)) (match_parts ps (drop k s)))
          [1 ..< Suc (length s)])"

fun search :: "part list \<Rightarrow> string \<Rightarrow> (string list \<times> string) option" where
  \<comment> \<open>\<open>re.search\<close>: the leftmost position where the format matches.\<close>
  "search ps [] = match_parts ps []"
| "search ps (x # xs) =
     (case match_parts ps (x # xs) of Some r \<Rightarrow> Some r | None \<Rightarrow> search ps xs)"

function findall :: "part list \<Rightarrow> string \<Rightarrow> string list list" where
  \<comment> \<open>\<open>Parser.findall\<close>: search again from the end of the previous match. The test
      on the lengths is there for the termination proof only: a match of a format that
      begins with a literal is never empty, so the test always succeeds for the two
      formats of the code (lemma \<open>findall_lit\<close>).\<close>
  "findall ps s =
     (case search ps s of
        None \<Rightarrow> []
      | Some (fs, r) \<Rightarrow> fs # (if length r < length s then findall ps r else []))"
  by pat_completeness auto
termination
  by (relation "measure (\<lambda>(ps, s). length s)") auto

definition name_format :: "part list" where
  \<comment> \<open>\<open>parse_compile("({entity})")\<close>\<close>
  "name_format = [Lit CHR ''('', Field, Lit CHR '')'']"

definition annotation_format :: "part list" where
  \<comment> \<open>\<open>parse_compile("[{entity}]({ent_name})")\<close>\<close>
  "annotation_format =
     [Lit CHR ''['', Field, Lit CHR '']'', Lit CHR ''('', Field, Lit CHR '')'']"

section \<open>Entity names\<close>

fun unique_from :: "'a list \<Rightarrow> 'a list \<Rightarrow> 'a list" where
  \<comment> \<open>\<open>Series.unique()\<close>: values in order of first appearance.\<close>
  "unique_from seen [] = []"
| "unique_from seen (x # xs) =
     (if x \<in> set seen then unique_from seen xs else x # unique_from (x # seen) xs)"

definition entity_names :: "string list \<Rightarrow> string list" where
  "entity_names rasa_strings =
     (let flat_results = concat (map (findall name_format) rasa_strings)
      in if length flat_results = 0 then []
         else unique_from [] (map (\<lambda>named. named ! 0) flat_results))"

section \<open>Stripping annotations\<close>

definition strip_found :: "string \<Rightarrow> string list \<Rightarrow> string" where
  \<comment> \<open>The body of the inner loop: two literal replacements on the whole text.\<close>
  "strip_found t found =
     str_replace
       (str_replace t (''['' @ found ! 0 @ '']'') (found ! 0))
       (''('' @ found ! 1 @ '')'') []"

definition strip_text :: "string \<Rightarrow> string" where
  \<comment> \<open>The matches are all taken from the text as it was before any replacement.\<close>
  "strip_text t = foldl strip_found t (findall annotation_format t)"

definition replace_ent_assignment :: "string list \<Rightarrow> string list" where
  "replace_ent_assignment texts = map strip_text texts"

section \<open>Notions used to state the properties\<close>

text \<open>The four offsets one turn of the scanner computes, as functions of its text.\<close>

definition sq1_of :: "string \<Rightarrow> int" where
  "sq1_of text = str_find text CHR ''[''"

definition sq2_of :: "string \<Rightarrow> int" where
  "sq2_of text = str_find (slice_from text (sq1_of text)) CHR '']''"

definition br1_of :: "string \<Rightarrow> int" where
  "br1_of text = str_find (slice_from text (sq1_of text + sq2_of text)) CHR ''{''"

definition br2_of :: "string \<Rightarrow> int" where
  "br2_of text =
     str_find (slice_from text (sq1_of text + sq2_of text + br1_of text)) CHR ''}''"


declare findall.simps [simp del]
declare match_parts.simps(3) [simp del]

text \<open>
  The tokens of one curly span in the words of the specification: drop the braces, turn
  \<open>:\<close> and \<open>,\<close> into a space, split on single spaces, discard empty tokens.
\<close>

definition spec_tokens :: "string \<Rightarrow> string list" where
  "spec_tokens curly =
     filter (\<lambda>t. t \<noteq> [])
       (str_split CHR '' ''
          (map (\<lambda>c. if c = CHR '':'' \<or> c = CHR '','' then CHR '' '' else c)
             (filter (\<lambda>c. c \<noteq> CHR ''{'' \<and> c \<noteq> CHR ''}'') curly)))"

text \<open>All pairs the scanner emits over a list of texts, when every scan ends.\<close>

fun scan_all :: "string list \<Rightarrow> (string \<times> string) list option" where
  "scan_all [] = Some []"
| "scan_all (text # texts) =
     (case gen_curly_ents text of
        None \<Rightarrow> None
      | Some items \<Rightarrow> map_option (\<lambda>rest. items @ rest) (scan_all texts))"

definition clean_token :: "string \<Rightarrow> bool" where
  "clean_token t \<longleftrightarrow>
     t \<noteq> [] \<and> CHR ''{'' \<notin> set t \<and> CHR ''}'' \<notin> set t \<and> CHR '':'' \<notin> set t
     \<and> CHR '','' \<notin> set t \<and> CHR '' '' \<notin> set t"

text \<open>
  A well-formed annotated text: stretches of plain text and occurrences
  \<open>[x](y)\<close>, where \<open>x\<close> and \<open>y\<close> are non-empty and neither they nor the plain
  text hold any of the four characters \<open>[\<close>, \<open>]\<close>, \<open>(\<close>, \<open>)\<close>.
\<close>

datatype piece = Plain string | Annot string string

fun render :: "piece list \<Rightarrow> string" where
  "render [] = []"
| "render (Plain p # ps) = p @ render ps"
| "render (Annot x y # ps) = ''['' @ x @ '']('' @ y @ '')'' @ render ps"

definition delimiter_free :: "string \<Rightarrow> bool" where
  "delimiter_free s \<longleftrightarrow>
     CHR ''['' \<notin> set s \<and> CHR '']'' \<notin> set s \<and> CHR ''('' \<notin> set s \<and> CHR '')'' \<notin> set s"

fun well_formed :: "piece list \<Rightarrow> bool" where
  "well_formed [] = True"
| "well_formed (Plain p # ps) = (delimiter_free p \<and> well_formed ps)"
| "well_formed (Annot x y # ps) =
     (x \<noteq> [] \<and> y \<noteq> [] \<and> delimiter_free x \<and> delimiter_free y \<and> well_formed ps)"

fun plain_text :: "piece list \<Rightarrow> string" where
  "plain_text [] = []"
| "plain_text (Plain p # ps) = p @ plain_text ps"
| "plain_text (Annot x y # ps) = x @ plain_text ps"

fun occurrences :: "piece list \<Rightarrow> string list list" where
  "occurrences [] = []"
| "occurrences (Plain p # ps) = occurrences ps"
| "occurrences (Annot x y # ps) = [x, y] # occurrences ps"

text \<open>
  While the stripper works through the matches, a well-formed text is a sequence of
  plain characters, bracket spans and parenthesis spans; each replacement opens or removes
  the spans that carry the matched content.
\<close>

datatype tok = Ch char | Br string | Pa string

fun tok_text :: "tok \<Rightarrow> string" where
  "tok_text (Ch c) = [c]"
| "tok_text (Br x) = ''['' @ x @ '']''"
| "tok_text (Pa y) = ''('' @ y @ '')''"

fun tok_ok :: "tok \<Rightarrow> bool" where
  "tok_ok (Ch c) = delimiter_free [c]"
| "tok_ok (Br x) = delimiter_free x"
| "tok_ok (Pa y) = delimiter_free y"

fun erase :: "tok \<Rightarrow> string" where
  "erase (Ch c) = [c]"
| "erase (Br x) = x"
| "erase (Pa y) = []"

fun toks_of :: "piece list \<Rightarrow> tok list" where
  "toks_of [] = []"
| "toks_of (Plain p # ps) = map Ch p @ toks_of ps"
| "toks_of (Annot x y # ps) = Br x # Pa y # toks_of ps"

definition open_br :: "string \<Rightarrow> tok \<Rightarrow> tok list" where
  "open_br x tk = (if tk = Br x then map Ch x else [tk])"

definition strip_toks :: "tok list \<Rightarrow> string list \<Rightarrow> tok list" where
  "strip_toks ts found =
     filter (\<lambda>tk. tk \<noteq> Pa (found ! 1)) (concat (map (open_br (found ! 0)) ts))"

definition plain_found :: "string list \<Rightarrow> bool" where
  "plain_found f \<longleftrightarrow> length f = 2 \<and> delimiter_free (f ! 0) \<and> delimiter_free (f ! 1)"

section \<open>Facts about the string primitives\<close>

lemma str_find_found:
  assumes "0 \<le> str_find s c"
  shows "nat (str_find s c) < length s \<and> s ! nat (str_find s c) = c"
proof -
  from assms have mem: "c \<in> set s"
    by (auto simp: str_find_def split: if_splits)
  then have eq: "str_find s c = int (length (takeWhile (\<lambda>x. x \<noteq> c) s))"
    by (simp add: str_find_def)
  from mem have lt: "length (takeWhile (\<lambda>x. x \<noteq> c) s) < length s"
    by (induction s) auto
  from nth_length_takeWhile [OF lt] lt eq show ?thesis by simp
qed

lemma slice_from_nonneg: "0 \<le> a \<Longrightarrow> slice_from s a = drop (nat a) s"
  by (simp add: slice_from_def clamp_index_def min_def)

section \<open>The scanner's loop\<close>

lemma gen_step_next:
  "gen_step text = Some (y, text') \<Longrightarrow>
     text' = slice_from text (sq1_of text + sq2_of text + br1_of text + br2_of text)"
  by (auto simp: gen_step_def Let_def sq1_of_def sq2_of_def br1_of_def br2_of_def
           split: if_splits)

lemma next_at_close:
  assumes "0 \<le> sq1_of text + sq2_of text + br1_of text" and "0 \<le> br2_of text"
  shows "slice_from text (sq1_of text + sq2_of text + br1_of text + br2_of text) =
           drop (nat (sq1_of text + sq2_of text + br1_of text + br2_of text)) text
         \<and> nat (sq1_of text + sq2_of text + br1_of text + br2_of text) < length text
         \<and> text ! nat (sq1_of text + sq2_of text + br1_of text + br2_of text) = CHR ''}''"
proof -
  define a where "a = sq1_of text + sq2_of text + br1_of text"
  define s where "s = slice_from text a"
  have s: "s = drop (nat a) text"
    using assms(1) by (simp add: s_def a_def slice_from_nonneg)
  have b: "br2_of text = str_find s CHR ''}''"
    by (simp add: br2_of_def s_def a_def)
  from str_find_found [of s "CHR ''}''"] assms(2) b
  have lt: "nat (br2_of text) < length s" and at: "s ! nat (br2_of text) = CHR ''}''"
    by simp_all
  from lt s have lt': "nat a + nat (br2_of text) < length text" by simp
  from at s lt' have "text ! (nat a + nat (br2_of text)) = CHR ''}''" by simp
  moreover have "nat (a + br2_of text) = nat a + nat (br2_of text)"
    using assms by (simp add: a_def nat_add_distrib)
  ultimately show ?thesis
    using lt' assms by (simp add: a_def slice_from_nonneg)
qed

text \<open>
  A text that a turn of the loop hands on unchanged is scanned for ever: no finite list
  of pairs is the result.
\<close>

lemma gen_curly_ents_stuck:
  assumes stuck: "gen_step t = Some (p, t)"
  shows "gen_curly_ents t = None"
proof (cases "gen_curly_ents t")
  case None
  then show ?thesis .
next
  case (Some ys)
  have "t \<noteq> t"
  proof (rule gen_curly_ents.raw_induct [where P = "\<lambda>x y. x \<noteq> t", OF _ Some])
    fix f :: "string \<Rightarrow> (string \<times> string) list option" and x y
    assume IH: "\<And>x y. f x = Some y \<Longrightarrow> x \<noteq> t"
      and F: "(case gen_step x of None \<Rightarrow> Some []
               | Some (y, text') \<Rightarrow> Option.bind (f text') (\<lambda>ys. Some (y # ys))) = Some y"
    show "x \<noteq> t"
    proof
      assume "x = t"
      with F stuck have "Option.bind (f t) (\<lambda>ys. Some (p # ys)) = Some y" by simp
      then obtain zs where "f t = Some zs" by (cases "f t") auto
      with IH show False by blast
    qed
  qed
  then show ?thesis by simp
qed

text \<open>
  C1. The claim: for every text the scan ends, in particular for a text with a \<open>[\<close>
  and no \<open>]\<close>, \<open>{\<close> or \<open>}\<close> after it. On the one-character text \<open>[\<close> all
  three later searches answer \<open>-1\<close>, the turn yields a pair of empty strings and hands
  on \<open>text[-3:]\<close>, which is the same text again, so the scan has no result. The same
  happens for a bracket span that no curly span follows, as in \<open>[x]\<close>.
\<close>

theorem gen_curly_ents_never_ends:
  "gen_step ''['' = Some (([], []), ''['') \<and> gen_curly_ents ''['' = None
   \<and> gen_step ''[x]'' = Some ((''[x]'', []), ''[x]'') \<and> gen_curly_ents ''[x]'' = None"
proof -
  have a: "gen_step ''['' = Some (([], []), ''['')" by code_simp
  have b: "gen_step ''[x]'' = Some ((''[x]'', []), ''[x]'')" by code_simp
  from a b gen_curly_ents_stuck [OF a] gen_curly_ents_stuck [OF b] show ?thesis by simp
qed

text \<open>
  C3, as the claim states it, fails: on \<open>[x]{a}\<close> the turn hands on \<open>}\<close>, while
  \<open>text[sq1+sq2+br1:]\<close> is \<open>{a}\<close>.
\<close>

theorem gen_step_next_text_counterexample:
  "gen_step ''[x]{a}'' = Some ((''[x]'', ''{a}''), ''}'')
   \<and> slice_from ''[x]{a}'' (sq1_of ''[x]{a}'' + sq2_of ''[x]{a}'' + br1_of ''[x]{a}'') = ''{a}''
   \<and> ''}'' \<noteq> ''{a}''"
  by code_simp

text \<open>
  C3, amended. After a turn has yielded its pair, the scan goes on from
  \<open>text[sq1+sq2+br1+br2:]\<close>. When the curly span was found (the position of \<open>{\<close> is
  a real index and \<open>}\<close> was found behind it), that is the text from the found \<open>}\<close>
  on, the \<open>}\<close> included: everything strictly before it is dropped.
\<close>

theorem gen_step_next_text:
  "gen_step text = Some (y, text') \<Longrightarrow>
     text' = slice_from text (sq1_of text + sq2_of text + br1_of text + br2_of text)
     \<and> (0 \<le> sq1_of text + sq2_of text + br1_of text \<and> 0 \<le> br2_of text \<longrightarrow>
          text' = drop (nat (sq1_of text + sq2_of text + br1_of text + br2_of text)) text
          \<and> text' \<noteq> [] \<and> hd text' = CHR ''}'')"
proof -
  assume "gen_step text = Some (y, text')"
  then have eq: "text' = slice_from text (sq1_of text + sq2_of text + br1_of text + br2_of text)"
    by (rule gen_step_next)
  have "text' = drop (nat (sq1_of text + sq2_of text + br1_of text + br2_of text)) text
        \<and> text' \<noteq> [] \<and> hd text' = CHR ''}''"
    if "0 \<le> sq1_of text + sq2_of text + br1_of text" and "0 \<le> br2_of text"
    using next_at_close [OF that] eq by (simp add: hd_drop_conv_nth)
  with eq show ?thesis by blast
qed

theorem gen_step_next_text_witness:
  "gen_step ''[x]{a}'' = Some ((''[x]'', ''{a}''), ''}'')
   \<and> 0 \<le> sq1_of ''[x]{a}'' + sq2_of ''[x]{a}'' + br1_of ''[x]{a}''
   \<and> 0 \<le> br2_of ''[x]{a}''
   \<and> nat (sq1_of ''[x]{a}'' + sq2_of ''[x]{a}'' + br1_of ''[x]{a}'' + br2_of ''[x]{a}'') = 5
   \<and> ''}'' = drop 5 ''[x]{a}'' \<and> ''}'' \<noteq> [] \<and> hd ''}'' = CHR ''}''"
proof -
  have s: "gen_step ''[x]{a}'' = Some ((''[x]'', ''{a}''), ''}'')" by code_simp
  have a: "0 \<le> sq1_of ''[x]{a}'' + sq2_of ''[x]{a}'' + br1_of ''[x]{a}''" by code_simp
  have b: "0 \<le> br2_of ''[x]{a}''" by code_simp
  have n: "nat (sq1_of ''[x]{a}'' + sq2_of ''[x]{a}'' + br1_of ''[x]{a}'' + br2_of ''[x]{a}'') = 5"
    by code_simp
  from gen_step_next_text [OF s] s a b n show ?thesis by simp
qed

section \<open>Matching the two formats\<close>


lemma first_some_in: "first_some os = Some r \<Longrightarrow> Some r \<in> set os"
  by (induction os rule: first_some.induct) auto

lemma first_some_upt:
  "a \<le> k \<Longrightarrow> k < b \<Longrightarrow> (\<And>j. a \<le> j \<Longrightarrow> j < k \<Longrightarrow> f j = None) \<Longrightarrow> f k = Some r \<Longrightarrow>
     first_some (map f [a ..< b]) = Some r"
proof (induction "k - a" arbitrary: a)
  case 0
  then have "a = k" by simp
  with 0 show ?case by (simp add: upt_conv_Cons)
next
  case (Suc n)
  then have lt: "a < k" and ab: "a < b" by simp_all
  from Suc.prems(3) [of a] lt have "f a = None" by simp
  moreover have "first_some (map f [Suc a ..< b]) = Some r"
    using Suc.hyps(2) Suc.prems lt by (intro Suc.hyps(1)) auto
  ultimately show ?case using ab by (simp add: upt_conv_Cons)
qed

lemma match_lit:
  "match_parts (Lit c # ps) s = Some m \<longleftrightarrow> (\<exists>xs. s = c # xs \<and> match_parts ps xs = Some m)"
  by (cases s) auto

lemma match_field_sound:
  assumes "match_parts (Field # ps) s = Some (fs, r)"
  shows "\<exists>k fs'. 1 \<le> k \<and> k \<le> length s \<and> fs = take k s # fs'
                  \<and> match_parts ps (drop k s) = Some (fs', r)"
proof -
  define F where "F = (\<lambda>k. map_option (\<lambda>(fs, r). (take k s # fs, r)) (match_parts ps (drop k s)))"
  from assms have "first_some (map F [1 ..< Suc (length s)]) = Some (fs, r)"
    by (simp add: match_parts.simps(3) F_def)
  from first_some_in [OF this] obtain k where k: "1 \<le> k" "k \<le> length s"
    and m: "F k = Some (fs, r)"
    by (auto simp: image_iff)
  from m obtain fs' where "match_parts ps (drop k s) = Some (fs', r)" "fs = take k s # fs'"
    unfolding F_def by (cases "match_parts ps (drop k s)") auto
  with k show ?thesis by blast
qed

lemma match_field_first:
  assumes "1 \<le> k" "k \<le> length s"
    and "\<And>j. 1 \<le> j \<Longrightarrow> j < k \<Longrightarrow> match_parts ps (drop j s) = None"
    and "match_parts ps (drop k s) = Some (fs, r)"
  shows "match_parts (Field # ps) s = Some (take k s # fs, r)"
  unfolding match_parts.simps(3)
  by (rule first_some_upt [where k = k]) (use assms in auto)

lemma match_shorter: "match_parts ps s = Some (fs, r) \<Longrightarrow> length r \<le> length s"
proof (induction ps arbitrary: s fs r)
  case Nil then show ?case by simp
next
  case (Cons p ps)
  show ?case
  proof (cases p)
    case (Lit c)
    with Cons.prems have "\<exists>xs. s = c # xs \<and> match_parts ps xs = Some (fs, r)"
      by (simp only: match_lit)
    then obtain xs where "s = c # xs" "match_parts ps xs = Some (fs, r)" by blast
    with Cons.IH [of xs fs r] show ?thesis by simp
  next
    case Field
    with Cons.prems match_field_sound [of ps s fs r] obtain k fs' where
      "match_parts ps (drop k s) = Some (fs', r)" by blast
    from Cons.IH [OF this] show ?thesis by simp
  qed
qed

lemma match_lit_shorter:
  assumes "match_parts (Lit c # ps) s = Some (fs, r)"
  shows "length r < length s"
proof -
  from assms obtain xs where "s = c # xs" "match_parts ps xs = Some (fs, r)"
    unfolding match_lit by blast
  with match_shorter [of ps xs fs r] show ?thesis by simp
qed

lemma search_lit_shorter: "search (Lit c # ps) s = Some (fs, r) \<Longrightarrow> length r < length s"
proof (induction s)
  case Nil then show ?case by simp
next
  case (Cons x xs)
  show ?case
  proof (cases "match_parts (Lit c # ps) (x # xs)")
    case None
    with Cons have "length r < length xs" by simp
    then show ?thesis by simp
  next
    case (Some m)
    with Cons.prems have "match_parts (Lit c # ps) (x # xs) = Some (fs, r)" by simp
    then show ?thesis by (rule match_lit_shorter)
  qed
qed

lemma findall_lit:
  "findall (Lit c # ps) s =
     (case search (Lit c # ps) s of None \<Rightarrow> [] | Some (fs, r) \<Rightarrow> fs # findall (Lit c # ps) r)"
proof (cases "search (Lit c # ps) s")
  case None
  then show ?thesis by (subst findall.simps) simp
next
  case (Some m)
  obtain fs r where m: "m = (fs, r)" by (cases m)
  from Some m search_lit_shorter [of c ps s fs r] have "length r < length s" by simp
  with Some m show ?thesis by (subst findall.simps) simp
qed

lemma findall_Nil: "findall ps s = [] \<longleftrightarrow> search ps s = None"
  by (subst findall.simps) (simp split: option.splits prod.splits)






section \<open>Entity names: properties\<close>

lemma unique_from_remdups_snoc: "remdups (ys @ [x]) = remdups (filter (\<lambda>y. y \<noteq> x) ys) @ [x]"
  by (induction ys) auto

lemma unique_from_remdups:
  "unique_from seen xs = rev (remdups (rev (filter (\<lambda>y. y \<notin> set seen) xs)))"
proof (induction xs arbitrary: seen)
  case Nil
  show ?case by simp
next
  case (Cons x xs)
  show ?case
  proof (cases "x \<in> set seen")
    case True
    with Cons show ?thesis by simp
  next
    case False
    have "filter (\<lambda>y. y \<noteq> x) (rev (filter (\<lambda>y. y \<notin> set seen) xs)) =
            rev (filter (\<lambda>y. y \<notin> set (x # seen)) xs)"
      by (auto simp: rev_filter [symmetric] intro: filter_cong)
    with False Cons [of "x # seen"] show ?thesis
      by (simp add: unique_from_remdups_snoc)
  qed
qed





text \<open>
  C5. \<open>entity_names\<close> keeps each name once, in the order of first appearance over the
  whole list of texts; the two examples of the specification evaluate as stated.
\<close>

theorem entity_names_first_seen:
  "entity_names [''[python](proglang) and [pandas](package)''] = [''proglang'', ''package'']
   \<and> entity_names [''[a](e1) and [b](e1)''] = [''e1'']
   \<and> entity_names texts =
       rev (remdups (rev (map (\<lambda>named. named ! 0) (concat (map (findall name_format) texts)))))
   \<and> distinct (entity_names texts)"
proof -
  have a: "entity_names [''[python](proglang) and [pandas](package)''] = [''proglang'', ''package'']"
    by code_simp
  have b: "entity_names [''[a](e1) and [b](e1)''] = [''e1'']"
    by code_simp
  have c: "entity_names texts =
       rev (remdups (rev (map (\<lambda>named. named ! 0) (concat (map (findall name_format) texts)))))"
    by (simp add: entity_names_def Let_def unique_from_remdups)
  have d: "distinct (entity_names texts)"
    by (simp only: c distinct_rev distinct_remdups)
  from a b c d show ?thesis by blast
qed

text \<open>
  C9. On the empty list of texts each of the three functions returns an empty result (for
  \<open>curly_entity_items\<close>: the call returns, and the empty list is the only value it can
  return), and a text without annotations gives no entity names.
\<close>

theorem empty_inputs:
  "entity_names [] = [] \<and> (curly_entity_items [] rs \<longleftrightarrow> rs = [])
   \<and> replace_ent_assignment [] = [] \<and> entity_names [''no annotations here''] = []"
proof -
  have a: "entity_names [''no annotations here''] = []" by code_simp
  have b: "entity_names [] = []" by (simp add: entity_names_def)
  have c: "curly_entity_items [] rs \<longleftrightarrow> rs = []"
    by (auto simp: curly_entity_items_def list_of_set_def)
  have d: "replace_ent_assignment [] = []" by (simp add: replace_ent_assignment_def)
  from a b c d show ?thesis by blast
qed

section \<open>Curly metadata tokens: properties\<close>

lemma str_replace_char: "str_replace s [a] [b] = map (\<lambda>c. if c = a then b else c) s"
  by (induction s) auto

lemma str_replace_delete: "str_replace s [a] [] = filter (\<lambda>c. c \<noteq> a) s"
  by (induction s) auto

lemma clean_curly_chars:
  "clean_curly curly =
     str_split CHR '' ''
       (map (\<lambda>c. if c = CHR '':'' \<or> c = CHR '','' then CHR '' '' else c)
          (filter (\<lambda>c. c \<noteq> CHR ''{'' \<and> c \<noteq> CHR ''}'') curly))"
proof -
  have "map (\<lambda>c. if c = CHR '','' then CHR '' '' else c)
          (filter (\<lambda>c. c \<noteq> CHR ''}'')
             (filter (\<lambda>c. c \<noteq> CHR ''{'') (map (\<lambda>c. if c = CHR '':'' then CHR '' '' else c) curly)))
        = map (\<lambda>c. if c = CHR '':'' \<or> c = CHR '','' then CHR '' '' else c)
            (filter (\<lambda>c. c \<noteq> CHR ''{'' \<and> c \<noteq> CHR ''}'') curly)"
    by (induction curly) auto
  then show ?thesis
    by (simp add: clean_curly_def str_replace_char str_replace_delete)
qed

lemma nonempty_clean_curly: "filter (\<lambda>item. item \<noteq> []) (clean_curly curly) = spec_tokens curly"
  by (simp only: clean_curly_chars spec_tokens_def)

lemma str_split_nonempty: "str_split c s \<noteq> []"
  by (induction s) (auto simp: Let_def)

lemma str_split_pieces: "t \<in> set (str_split c s) \<Longrightarrow> c \<notin> set t \<and> set t \<subseteq> set s"
proof (induction s arbitrary: t)
  case Nil then show ?case by simp
next
  case (Cons x xs)
  show ?case
  proof (cases "x = c")
    case True
    with Cons.prems have "t = [] \<or> t \<in> set (str_split c xs)" by simp
    with Cons.IH show ?thesis by auto
  next
    case False
    define r where "r = str_split c xs"
    have ne: "r \<noteq> []" by (simp add: r_def str_split_nonempty)
    have hd_ok: "c \<notin> set (hd r) \<and> set (hd r) \<subseteq> set xs"
      using ne Cons.IH [of "hd r"] by (simp add: r_def)
    have tl_ok: "c \<notin> set u \<and> set u \<subseteq> set xs" if "u \<in> set (tl r)" for u
    proof -
      from that ne have "u \<in> set r" by (cases r) auto
      then show ?thesis using Cons.IH [of u] by (simp add: r_def)
    qed
    from False Cons.prems have "t = x # hd r \<or> t \<in> set (tl r)"
      by (simp add: Let_def r_def)
    then show ?thesis
    proof
      assume "t = x # hd r"
      with hd_ok False show ?thesis by auto
    next
      assume "t \<in> set (tl r)"
      from tl_ok [OF this] show ?thesis by auto
    qed
  qed
qed

lemma spec_tokens_clean: "t \<in> set (spec_tokens curly) \<Longrightarrow> clean_token t"
proof -
  assume "t \<in> set (spec_tokens curly)"
  then have ne: "t \<noteq> []" and
    mem: "t \<in> set (str_split CHR '' ''
          (map (\<lambda>c. if c = CHR '':'' \<or> c = CHR '','' then CHR '' '' else c)
             (filter (\<lambda>c. c \<noteq> CHR ''{'' \<and> c \<noteq> CHR ''}'') curly)))"
    by (simp_all add: spec_tokens_def)
  from str_split_pieces [OF mem] ne show ?thesis
    by (auto simp: clean_token_def)
qed

lemma curly_tokens_spec:
  "curly_tokens items = concat (map (\<lambda>(ent, curly). spec_tokens curly) items)"
  by (simp add: curly_tokens_def nonempty_clean_curly)

lemma curly_results_scan_all:
  "curly_results texts = map_option curly_tokens (scan_all texts)"
  by (induction texts) (auto simp: curly_tokens_def split: option.splits)

lemma set_curly_tokens:
  "set (curly_tokens items) = (\<Union>(ent, curly)\<in>set items. set (spec_tokens curly))"
  by (auto simp: curly_tokens_spec)

lemma curly_entity_items_scan:
  "curly_entity_items texts rs =
     (case scan_all texts of
        None \<Rightarrow> False
      | Some items \<Rightarrow>
          distinct rs \<and> set rs = (\<Union>(ent, curly)\<in>set items. set (spec_tokens curly)))"
  by (simp add: curly_entity_items_def curly_results_scan_all list_of_set_def set_curly_tokens
           split: option.splits)

text \<open>
  C7. The chain of replacements in the code yields, for every curly span, the tokens the
  specification describes; the result of \<open>curly_entity_items\<close> holds each token of
  each emitted span once; and for \<open>[x]{entity: proglang}\<close> the call returns, with
  exactly the two tokens \<open>entity\<close> and \<open>proglang\<close>.
\<close>

theorem curly_entity_items_tokens:
  "filter (\<lambda>item. item \<noteq> []) (clean_curly span) = spec_tokens span
   \<and> curly_entity_items texts rs =
       (case scan_all texts of
          None \<Rightarrow> False
        | Some items \<Rightarrow>
            distinct rs \<and> set rs = (\<Union>(ent, curly)\<in>set items. set (spec_tokens curly)))
   \<and> (curly_entity_items [''[x]{entity: proglang}''] rs' \<longleftrightarrow>
        distinct rs' \<and> set rs' = {''entity'', ''proglang''})"
proof -
  have "curly_results [''[x]{entity: proglang}''] = Some [''entity'', ''proglang'']"
    by code_simp
  then have "curly_entity_items [''[x]{entity: proglang}''] rs' \<longleftrightarrow>
        distinct rs' \<and> set rs' = {''entity'', ''proglang''}"
    by (simp add: curly_entity_items_def list_of_set_def)
  with nonempty_clean_curly [of span] curly_entity_items_scan [of texts rs]
  show ?thesis by blast
qed

text \<open>
  C10. Whenever \<open>curly_entity_items\<close> returns, its result has no duplicates, and each
  of its strings is non-empty and free of \<open>{\<close>, \<open>}\<close>, \<open>:\<close>, \<open>,\<close> and the
  space character.
\<close>

theorem curly_entity_items_clean:
  "curly_entity_items texts rs \<Longrightarrow>
     distinct rs
     \<and> (\<forall>t\<in>set rs. t \<noteq> [] \<and> CHR ''{'' \<notin> set t \<and> CHR ''}'' \<notin> set t
            \<and> CHR '':'' \<notin> set t \<and> CHR '','' \<notin> set t \<and> CHR '' '' \<notin> set t)"
proof -
  assume "curly_entity_items texts rs"
  then have "distinct rs \<and> (\<forall>t\<in>set rs. clean_token t)"
    by (auto simp: curly_entity_items_scan split: option.splits dest: spec_tokens_clean)
  then show ?thesis by (simp add: clean_token_def)
qed

theorem curly_entity_items_clean_witness:
  "curly_entity_items [''[x]{a: b, c d}'', ''no span''] [''d'', ''c'', ''b'', ''a'']
   \<and> distinct [''d'', ''c'', ''b'', ''a'']
   \<and> clean_token ''a'' \<and> clean_token ''b'' \<and> clean_token ''c'' \<and> clean_token ''d''"
proof -
  have h: "curly_entity_items [''[x]{a: b, c d}'', ''no span''] [''d'', ''c'', ''b'', ''a'']"
    by code_simp
  from curly_entity_items_clean [OF h] h show ?thesis by (simp add: clean_token_def)
qed

section \<open>Stripping annotations: properties\<close>

lemma match_field_lit_sound:
  assumes "match_parts (Field # Lit c # ps) s = Some (fs, r)"
  shows "\<exists>x s' fs'. x \<noteq> [] \<and> s = x @ c # s' \<and> fs = x # fs' \<and> match_parts ps s' = Some (fs', r)"
proof -
  from match_field_sound [OF assms] obtain k fs' where k: "1 \<le> k" "k \<le> length s"
    and fs: "fs = take k s # fs'" and m: "match_parts (Lit c # ps) (drop k s) = Some (fs', r)"
    by blast
  from m obtain s' where d: "drop k s = c # s'" and m': "match_parts ps s' = Some (fs', r)"
    unfolding match_lit by blast
  have "s = take k s @ drop k s" by simp
  with d have "s = take k s @ c # s'" by simp
  moreover from k d have "take k s \<noteq> []" by (cases s) auto
  ultimately show ?thesis using fs m' by blast
qed

lemma match_annotation_sound:
  assumes "match_parts annotation_format s = Some (fs, r)"
  shows "\<exists>x y. x \<noteq> [] \<and> y \<noteq> [] \<and> fs = [x, y]
               \<and> s = ''['' @ x @ '']('' @ y @ '')'' @ r"
proof -
  from assms obtain s1 where s: "s = CHR ''['' # s1"
    and m1: "match_parts [Field, Lit CHR '']'', Lit CHR ''('', Field, Lit CHR '')''] s1 = Some (fs, r)"
    unfolding annotation_format_def match_lit by blast
  from match_field_lit_sound [OF m1] obtain x s2 fs2 where x: "x \<noteq> []" "s1 = x @ CHR '']'' # s2"
    "fs = x # fs2" and m2: "match_parts [Lit CHR ''('', Field, Lit CHR '')''] s2 = Some (fs2, r)"
    by blast
  from m2 obtain s3 where s3: "s2 = CHR ''('' # s3"
    and m3: "match_parts [Field, Lit CHR '')''] s3 = Some (fs2, r)"
    unfolding match_lit by blast
  from match_field_lit_sound [OF m3] obtain y s4 fs4 where y: "y \<noteq> []" "s3 = y @ CHR '')'' # s4"
    "fs2 = y # fs4" and m4: "match_parts [] s4 = Some (fs4, r)"
    by blast
  from m4 have "fs4 = []" "s4 = r" by simp_all
  with s x s3 y show ?thesis by simp
qed

lemma search_annotation_sound:
  "search annotation_format s = Some (fs, r) \<Longrightarrow>
     \<exists>pre x y. x \<noteq> [] \<and> y \<noteq> [] \<and> fs = [x, y]
                \<and> s = pre @ ''['' @ x @ '']('' @ y @ '')'' @ r"
proof (induction s)
  case Nil
  then have "match_parts annotation_format [] = Some (fs, r)" by simp
  from match_annotation_sound [OF this] show ?case by simp
next
  case (Cons c cs)
  show ?case
  proof (cases "match_parts annotation_format (c # cs)")
    case None
    with Cons.prems have "search annotation_format cs = Some (fs, r)" by simp
    from Cons.IH [OF this] obtain pre x y where
      "x \<noteq> []" "y \<noteq> []" "fs = [x, y]" "cs = pre @ ''['' @ x @ '']('' @ y @ '')'' @ r"
      by blast
    then have "x \<noteq> [] \<and> y \<noteq> [] \<and> fs = [x, y]
               \<and> c # cs = (c # pre) @ ''['' @ x @ '']('' @ y @ '')'' @ r" by simp
    then show ?thesis by blast
  next
    case (Some m)
    with Cons.prems have "match_parts annotation_format (c # cs) = Some (fs, r)" by simp
    from match_annotation_sound [OF this] obtain x y where
      "x \<noteq> [] \<and> y \<noteq> [] \<and> fs = [x, y]
               \<and> c # cs = [] @ ''['' @ x @ '']('' @ y @ '')'' @ r" by auto
    then show ?thesis by blast
  qed
qed

lemma findall_annotation:
  "findall annotation_format s =
     (case search annotation_format s of
        None \<Rightarrow> []
      | Some (fs, r) \<Rightarrow> fs # findall annotation_format r)"
  unfolding annotation_format_def by (rule findall_lit)

lemma str_replace_length_le:
  "old \<noteq> [] \<Longrightarrow> length new \<le> length old \<Longrightarrow> length (str_replace s old new) \<le> length s"
proof (induction s old new rule: str_replace.induct)
  case (1 old new)
  then show ?case by simp
next
  case (2 c cs old new)
  show ?case
  proof (cases "prefix old (c # cs)")
    case True
    then have "length old \<le> length (c # cs)" by (rule prefix_length_le)
    moreover from 2 True
    have "length (str_replace (drop (length old) (c # cs)) old new) \<le> length (c # cs) - length old"
      by simp
    ultimately show ?thesis using 2 True by simp
  next
    case False
    with 2 show ?thesis by simp
  qed
qed

lemma str_replace_length_less:
  "sublist old s \<Longrightarrow> length new < length old \<Longrightarrow> length (str_replace s old new) < length s"
proof (induction s old new rule: str_replace.induct)
  case (1 old new)
  then show ?case by simp
next
  case (2 c cs old new)
  from 2(5) have ne: "old \<noteq> []" by auto
  show ?case
  proof (cases "prefix old (c # cs)")
    case True
    then have "length old \<le> length (c # cs)" by (rule prefix_length_le)
    moreover from ne 2(5)
    have "length (str_replace (drop (length old) (c # cs)) old new) \<le> length (c # cs) - length old"
      using str_replace_length_le [of old new "drop (length old) (c # cs)"] by simp
    ultimately show ?thesis using 2(5) True ne by simp
  next
    case False
    with 2(4) have "sublist old cs" by (simp add: sublist_Cons_right)
    with 2(3) [OF ne False this 2(5)] ne False show ?thesis by simp
  qed
qed

lemma strip_found_length_le: "length (strip_found t found) \<le> length t"
proof -
  have "length (str_replace t (''['' @ found ! 0 @ '']'') (found ! 0)) \<le> length t"
    by (rule str_replace_length_le) simp_all
  moreover have "length (strip_found t found)
                   \<le> length (str_replace t (''['' @ found ! 0 @ '']'') (found ! 0))"
    unfolding strip_found_def by (rule str_replace_length_le) simp_all
  ultimately show ?thesis by simp
qed

lemma foldl_strip_found_length_le: "length (foldl strip_found t founds) \<le> length t"
proof (induction founds arbitrary: t)
  case Nil show ?case by simp
next
  case (Cons f fs)
  from Cons [of "strip_found t f"] strip_found_length_le [of t f]
  show ?case by simp
qed

lemma strip_found_length_less:
  assumes "sublist (''['' @ x @ '']'') t"
  shows "length (strip_found t [x, y]) < length t"
proof -
  have "length (str_replace t (''['' @ x @ '']'') x) < length t"
    using assms by (rule str_replace_length_less) simp
  moreover have "length (strip_found t [x, y]) \<le> length (str_replace t (''['' @ x @ '']'') x)"
    unfolding strip_found_def by simp (rule str_replace_length_le, simp_all)
  ultimately show ?thesis by simp
qed

lemma strip_text_fixed_iff: "strip_text t = t \<longleftrightarrow> findall annotation_format t = []"
proof
  assume "findall annotation_format t = []"
  then show "strip_text t = t" by (simp add: strip_text_def)
next
  assume fixed: "strip_text t = t"
  show "findall annotation_format t = []"
  proof (cases "search annotation_format t")
    case None
    then show ?thesis by (simp add: findall_Nil)
  next
    case (Some m)
    obtain fs r where m: "m = (fs, r)" by (cases m)
    from search_annotation_sound [of t fs r] Some m obtain pre x y where
      fs: "fs = [x, y]" and t: "t = pre @ ''['' @ x @ '']('' @ y @ '')'' @ r" by auto
    have "t = pre @ (''['' @ x @ '']'') @ (''('' @ y @ '')'' @ r)" by (subst t) simp
    then have "sublist (''['' @ x @ '']'') t" unfolding sublist_def by blast
    then have "length (strip_found t [x, y]) < length t" by (rule strip_found_length_less)
    moreover have "strip_text t = foldl strip_found (strip_found t [x, y]) (findall annotation_format r)"
      using Some m fs by (simp add: strip_text_def findall_annotation [of t])
    ultimately have "length (strip_text t) < length t"
      using foldl_strip_found_length_le [of "strip_found t [x, y]" "findall annotation_format r"]
      by simp
    with fixed show ?thesis by simp
  qed
qed

lemma map_fixed_iff: "map f xs = xs \<longleftrightarrow> (\<forall>x\<in>set xs. f x = x)"
  by (induction xs) auto

text \<open>
  C8. The output has one string per input string, and it is aligned with the input by
  position: the string at position \<open>i\<close> is the stripped form of the input text at
  position \<open>i\<close>, whatever the other texts are, so that it is what the function returns
  for that text alone. A text without any match of \<open>[<entity>](<ent_name>)\<close>
  stands unchanged at its position.
\<close>

theorem replace_ent_assignment_aligned:
  "length (replace_ent_assignment texts) = length texts
   \<and> (\<forall>i<length texts.
          replace_ent_assignment texts ! i = strip_text (texts ! i)
          \<and> replace_ent_assignment texts ! i = hd (replace_ent_assignment [texts ! i]))
   \<and> (\<forall>i<length texts. findall annotation_format (texts ! i) = [] \<longrightarrow>
          replace_ent_assignment texts ! i = texts ! i)"
  by (simp add: replace_ent_assignment_def strip_text_fixed_iff)

theorem replace_ent_assignment_aligned_witness:
  "length (replace_ent_assignment [''[a](b) c'', ''[d](e) f'', ''no match [here] (at all)'']) = 3
   \<and> replace_ent_assignment [''[a](b) c'', ''[d](e) f'', ''no match [here] (at all)'']
       = [''a c'', ''d f'', ''no match [here] (at all)'']
   \<and> hd (replace_ent_assignment [''[a](b) c'']) = ''a c''
   \<and> hd (replace_ent_assignment [''[d](e) f'']) = ''d f''
   \<and> findall annotation_format ''no match [here] (at all)'' = []"
proof -
  let ?texts = "[''[a](b) c'', ''[d](e) f'', ''no match [here] (at all)'']"
  have a: "hd (replace_ent_assignment [''[a](b) c'']) = ''a c''" by code_simp
  have b: "hd (replace_ent_assignment [''[d](e) f'']) = ''d f''" by code_simp
  have h: "findall annotation_format ''no match [here] (at all)'' = []" by code_simp
  note aligned = replace_ent_assignment_aligned [of ?texts]
  from aligned have "length (replace_ent_assignment ?texts) = length ?texts"
    by (rule conjunct1)
  then have len: "length (replace_ent_assignment ?texts) = 3" by simp
  from aligned
  have pos: "i < length ?texts \<Longrightarrow>
               replace_ent_assignment ?texts ! i = hd (replace_ent_assignment [?texts ! i])" for i
    by blast
  from aligned
  have keep: "i < length ?texts \<Longrightarrow> findall annotation_format (?texts ! i) = [] \<Longrightarrow>
                replace_ent_assignment ?texts ! i = ?texts ! i" for i
    by blast
  from pos [of 0] a have p0: "replace_ent_assignment ?texts ! 0 = ''a c''" by simp
  from pos [of 1] b have p1: "replace_ent_assignment ?texts ! 1 = ''d f''" by simp
  from keep [of 2] h
  have p2: "replace_ent_assignment ?texts ! 2 = ''no match [here] (at all)''" by simp
  have "replace_ent_assignment ?texts = [''a c'', ''d f'', ''no match [here] (at all)'']"
  proof (rule nth_equalityI)
    show "length (replace_ent_assignment ?texts)
            = length [''a c'', ''d f'', ''no match [here] (at all)'']"
      using len by simp
  next
    fix i assume "i < length (replace_ent_assignment ?texts)"
    with len have "i = 0 \<or> i = 1 \<or> i = 2" by auto
    with p0 p1 p2
    show "replace_ent_assignment ?texts ! i = [''a c'', ''d f'', ''no match [here] (at all)''] ! i"
      by auto
  qed
  with len a b h show ?thesis by simp
qed

text \<open>
  C4, as the claim states it, fails: stripping \<open>[[a](b)](c)\<close> gives \<open>[a](c)\<close>,
  which is again an annotation, and stripping that gives \<open>a\<close>.
\<close>

theorem strip_twice_counterexample:
  "replace_ent_assignment (replace_ent_assignment [''[[a](b)](c)''])
     \<noteq> replace_ent_assignment [''[[a](b)](c)'']"
proof -
  have "replace_ent_assignment [''[[a](b)](c)''] = [''[a](c)'']" by code_simp
  moreover have "replace_ent_assignment [''[a](c)''] = [''a'']" by code_simp
  ultimately show ?thesis by simp
qed

text \<open>
  C4, amended. Stripping a second time changes nothing exactly when the first output
  holds no match of \<open>[<entity>](<ent_name>)\<close> any more; an output that still holds a
  match, as for nested annotations, is changed again.
\<close>

theorem strip_twice_iff:
  "replace_ent_assignment (replace_ent_assignment texts) = replace_ent_assignment texts
   \<longleftrightarrow> (\<forall>t\<in>set (replace_ent_assignment texts). findall annotation_format t = [])"
  by (simp only: replace_ent_assignment_def map_fixed_iff strip_text_fixed_iff)

theorem strip_twice_iff_witness:
  "replace_ent_assignment [''[python](proglang) and [pandas](package)'', ''plain'']
     = [''python and pandas'', ''plain'']
   \<and> findall annotation_format ''python and pandas'' = []
   \<and> findall annotation_format ''plain'' = []
   \<and> replace_ent_assignment
        (replace_ent_assignment [''[python](proglang) and [pandas](package)'', ''plain''])
       = replace_ent_assignment [''[python](proglang) and [pandas](package)'', ''plain'']"
proof -
  have a: "replace_ent_assignment [''[python](proglang) and [pandas](package)'', ''plain'']
             = [''python and pandas'', ''plain'']" by code_simp
  have b: "findall annotation_format ''python and pandas'' = []" by code_simp
  have c: "findall annotation_format ''plain'' = []" by code_simp
  from strip_twice_iff [of "[''[python](proglang) and [pandas](package)'', ''plain'']"] a b c
  show ?thesis by simp
qed

section \<open>Stripping a well-formed text\<close>

lemma str_replace_skip:
  "c0 \<notin> set u \<Longrightarrow> str_replace (u @ r) (c0 # old) new = u @ str_replace r (c0 # old) new"
  by (induction u) auto

lemma str_replace_hit:
  "str_replace ((c0 # old) @ r) (c0 # old) new = new @ str_replace r (c0 # old) new"
  by simp

lemma block_prefix:
  "cl \<notin> set x \<Longrightarrow> cl \<notin> set x' \<Longrightarrow> prefix (x @ [cl]) (x' @ cl # rest) \<Longrightarrow> x = x'"
proof (induction x arbitrary: x')
  case Nil
  then show ?case by (cases x') auto
next
  case (Cons a x)
  then show ?case by (cases x') auto
qed

lemma str_replace_miss:
  "\<not> prefix old (c # cs) \<Longrightarrow> old \<noteq> [] \<Longrightarrow>
     str_replace (c # cs) old new = c # str_replace cs old new"
  by (subst str_replace.simps) simp

lemma str_replace_other_block:
  assumes "x \<noteq> x'" "cl \<notin> set x" "cl \<notin> set x'" "c0 \<notin> set x'" "c0 \<noteq> cl"
  shows "str_replace (c0 # x' @ cl # r) (c0 # x @ [cl]) new
           = c0 # x' @ cl # str_replace r (c0 # x @ [cl]) new"
proof -
  have "\<not> prefix (x @ [cl]) (x' @ cl # r)"
  proof
    assume "prefix (x @ [cl]) (x' @ cl # r)"
    from block_prefix [OF assms(2,3) this] assms(1) show False by simp
  qed
  then have np: "\<not> prefix (c0 # x @ [cl]) (c0 # x' @ cl # r)"
    by (simp only: prefix_Cons) blast
  have notin: "c0 \<notin> set (x' @ [cl])" using assms(4,5) by simp
  have "str_replace (c0 # x' @ cl # r) (c0 # x @ [cl]) new
               = c0 # str_replace (x' @ cl # r) (c0 # x @ [cl]) new"
    using np by (rule str_replace_miss) blast
  also have "x' @ cl # r = (x' @ [cl]) @ r" by (simp only: append_assoc append_Cons append_Nil)
  also have "str_replace ((x' @ [cl]) @ r) (c0 # x @ [cl]) new
               = (x' @ [cl]) @ str_replace r (c0 # x @ [cl]) new"
    using notin by (rule str_replace_skip)
  finally show ?thesis by (simp only: append_assoc append_Cons append_Nil)
qed


lemma open_br_simps:
  "open_br x (Ch c) = [Ch c]" "open_br x (Pa y) = [Pa y]" "open_br x (Br x) = map Ch x"
  "x' \<noteq> x \<Longrightarrow> open_br x (Br x') = [Br x']"
  by (simp_all add: open_br_def)

lemma text_of_chars: "concat (map tok_text (map Ch x)) = x"
  by (induction x) auto

lemma replace_brackets_tok:
  assumes "tok_ok tk" "delimiter_free x"
  shows "str_replace (tok_text tk @ r) (CHR ''['' # x @ '']'') x
           = concat (map tok_text (open_br x tk)) @ str_replace r (CHR ''['' # x @ '']'') x"
proof (cases tk)
  case (Ch c)
  with assms have "CHR ''['' \<notin> set (tok_text tk)" by (simp add: delimiter_free_def)
  from str_replace_skip [OF this] Ch show ?thesis by (simp only: open_br_simps) simp
next
  case (Pa y)
  with assms have "CHR ''['' \<notin> set (tok_text tk)" by (simp add: delimiter_free_def)
  from str_replace_skip [OF this] Pa show ?thesis by (simp only: open_br_simps) simp
next
  case (Br x')
  show ?thesis
  proof (cases "x' = x")
    case True
    have "tok_text tk = CHR ''['' # x @ '']''" using Br True by simp
    with str_replace_hit [of "CHR ''[''" "x @ '']''" r x] Br True
    show ?thesis by (simp only: open_br_simps text_of_chars)
  next
    case False
    from Br assms have "CHR '']'' \<notin> set x" "CHR '']'' \<notin> set x'" "CHR ''['' \<notin> set x'"
      by (simp_all add: delimiter_free_def)
    with False str_replace_other_block [of x x' "CHR '']''" "CHR ''[''" r x]
    have "str_replace (CHR ''['' # x' @ CHR '']'' # r) (CHR ''['' # x @ '']'') x
           = CHR ''['' # x' @ CHR '']'' # str_replace r (CHR ''['' # x @ '']'') x"
      by simp
    moreover have "tok_text tk @ r = CHR ''['' # x' @ CHR '']'' # r" using Br by simp
    moreover have "concat (map tok_text (open_br x tk)) = CHR ''['' # x' @ '']''"
      using Br False by (simp add: open_br_simps)
    ultimately show ?thesis by (simp del: str_replace.simps)
  qed
qed

lemma replace_brackets:
  assumes "delimiter_free x"
  shows "\<forall>tk\<in>set ts. tok_ok tk \<Longrightarrow>
         str_replace (concat (map tok_text ts)) (CHR ''['' # x @ '']'') x
           = concat (map tok_text (concat (map (open_br x) ts)))"
proof (induction ts)
  case Nil
  show ?case by simp
next
  case (Cons tk ts)
  then have IH: "str_replace (concat (map tok_text ts)) (CHR ''['' # x @ '']'') x
           = concat (map tok_text (concat (map (open_br x) ts)))" by simp
  from Cons.prems have "tok_ok tk" by simp
  from replace_brackets_tok [OF this assms, of "concat (map tok_text ts)"] IH
  show ?case by (simp del: str_replace.simps)
qed

lemma replace_parens_tok:
  assumes "tok_ok tk" "delimiter_free y"
  shows "str_replace (tok_text tk @ r) (CHR ''('' # y @ '')'') []
           = concat (map tok_text (filter (\<lambda>tk. tk \<noteq> Pa y) [tk]))
             @ str_replace r (CHR ''('' # y @ '')'') []"
proof (cases tk)
  case (Ch c)
  with assms have "CHR ''('' \<notin> set (tok_text tk)" by (simp add: delimiter_free_def)
  from str_replace_skip [OF this] Ch show ?thesis by simp
next
  case (Br x)
  with assms have "CHR ''('' \<notin> set (tok_text tk)" by (simp add: delimiter_free_def)
  from str_replace_skip [OF this] Br show ?thesis by simp
next
  case (Pa y')
  show ?thesis
  proof (cases "y' = y")
    case True
    have "tok_text tk = CHR ''('' # y @ '')''" using Pa True by simp
    with str_replace_hit [of "CHR ''(''" "y @ '')''" r "[]"] Pa True
    show ?thesis by (simp del: str_replace.simps)
  next
    case False
    from Pa assms have "CHR '')'' \<notin> set y" "CHR '')'' \<notin> set y'" "CHR ''('' \<notin> set y'"
      by (simp_all add: delimiter_free_def)
    with False str_replace_other_block [of y y' "CHR '')''" "CHR ''(''" r "[]"]
    have "str_replace (CHR ''('' # y' @ CHR '')'' # r) (CHR ''('' # y @ '')'') []
           = CHR ''('' # y' @ CHR '')'' # str_replace r (CHR ''('' # y @ '')'') []"
      by simp
    moreover have "tok_text tk @ r = CHR ''('' # y' @ CHR '')'' # r" using Pa by simp
    moreover have "concat (map tok_text (filter (\<lambda>tk. tk \<noteq> Pa y) [tk])) = CHR ''('' # y' @ '')''"
      using Pa False by simp
    ultimately show ?thesis by (simp del: str_replace.simps)
  qed
qed

lemma replace_parens:
  assumes "delimiter_free y"
  shows "\<forall>tk\<in>set ts. tok_ok tk \<Longrightarrow>
         str_replace (concat (map tok_text ts)) (CHR ''('' # y @ '')'') []
           = concat (map tok_text (filter (\<lambda>tk. tk \<noteq> Pa y) ts))"
proof (induction ts)
  case Nil
  show ?case by simp
next
  case (Cons tk ts)
  then have IH: "str_replace (concat (map tok_text ts)) (CHR ''('' # y @ '')'') []
           = concat (map tok_text (filter (\<lambda>tk. tk \<noteq> Pa y) ts))" by simp
  from Cons.prems have "tok_ok tk" by simp
  from replace_parens_tok [OF this assms, of "concat (map tok_text ts)"] IH
  show ?case by (simp del: str_replace.simps)
qed


lemma open_br_ok: "tok_ok tk \<Longrightarrow> delimiter_free x \<Longrightarrow> \<forall>t\<in>set (open_br x tk). tok_ok t"
  by (auto simp: open_br_def delimiter_free_def)

lemma strip_toks_ok:
  assumes "\<forall>tk\<in>set ts. tok_ok tk" "delimiter_free x"
  shows "\<forall>tk\<in>set (strip_toks ts [x, y]). tok_ok tk"
  using assms open_br_ok by (fastforce simp: strip_toks_def)

lemma strip_found_toks:
  assumes ok: "\<forall>tk\<in>set ts. tok_ok tk" and x: "delimiter_free x" and y: "delimiter_free y"
  shows "strip_found (concat (map tok_text ts)) [x, y] = concat (map tok_text (strip_toks ts [x, y]))"
proof -
  have ok': "\<forall>tk\<in>set (concat (map (open_br x) ts)). tok_ok tk"
    using ok x open_br_ok by fastforce
  have "strip_found (concat (map tok_text ts)) [x, y]
          = str_replace (str_replace (concat (map tok_text ts)) (CHR ''['' # x @ '']'') x)
              (CHR ''('' # y @ '')'') []"
    by (simp add: strip_found_def del: str_replace.simps)
  also have "\<dots> = str_replace (concat (map tok_text (concat (map (open_br x) ts))))
              (CHR ''('' # y @ '')'') []"
    by (simp only: replace_brackets [OF x ok])
  also have "\<dots> = concat (map tok_text (filter (\<lambda>tk. tk \<noteq> Pa y) (concat (map (open_br x) ts))))"
    by (rule replace_parens [OF y ok'])
  finally show ?thesis by (simp add: strip_toks_def)
qed

lemma plain_found_pair: "plain_found f \<Longrightarrow> f = [f ! 0, f ! 1]"
proof -
  assume "plain_found f"
  then have "length f = 2" by (simp add: plain_found_def)
  then show ?thesis by (cases f; cases "tl f") auto
qed

lemma foldl_strip_toks:
  "\<forall>tk\<in>set ts. tok_ok tk \<Longrightarrow> \<forall>f\<in>set founds. plain_found f \<Longrightarrow>
     foldl strip_found (concat (map tok_text ts)) founds
       = concat (map tok_text (foldl strip_toks ts founds))"
proof (induction founds arbitrary: ts)
  case Nil
  show ?case by simp
next
  case (Cons f fs)
  from Cons.prems have pf: "plain_found f" by simp
  then have f: "f = [f ! 0, f ! 1]" by (rule plain_found_pair)
  from pf have x: "delimiter_free (f ! 0)" and y: "delimiter_free (f ! 1)"
    by (simp_all add: plain_found_def)
  have step: "strip_found (concat (map tok_text ts)) f = concat (map tok_text (strip_toks ts f))"
    using strip_found_toks [OF Cons.prems(1) x y] f by simp
  have ok: "\<forall>tk\<in>set (strip_toks ts f). tok_ok tk"
    using strip_toks_ok [OF Cons.prems(1) x, of "f ! 1"] f by simp
  from Cons.prems(2) have "\<forall>f\<in>set fs. plain_found f" by simp
  from Cons.IH [OF ok this] step show ?case by simp
qed

lemma erase_open_br: "concat (map erase (open_br x tk)) = erase tk"
proof -
  have "concat (map erase (map Ch x)) = x" by (induction x) auto
  then show ?thesis by (auto simp: open_br_def)
qed

lemma erase_strip_toks: "concat (map erase (strip_toks ts f)) = concat (map erase ts)"
proof -
  have a: "concat (map erase (filter (\<lambda>tk. tk \<noteq> Pa y) us)) = concat (map erase us)" for y us
    by (induction us) auto
  have b: "concat (map erase (concat (map (open_br x) ts))) = concat (map erase ts)" for x
    by (induction ts) (simp_all add: erase_open_br)
  show ?thesis by (simp only: strip_toks_def a b)
qed

lemma erase_foldl: "concat (map erase (foldl strip_toks ts founds)) = concat (map erase ts)"
  by (induction founds arbitrary: ts) (simp_all add: erase_strip_toks)

lemma strip_toks_left:
  assumes "tk \<in> set (strip_toks ts f)"
  shows "(\<exists>c. tk = Ch c) \<or> (tk \<in> set ts \<and> tk \<noteq> Br (f ! 0) \<and> tk \<noteq> Pa (f ! 1))"
proof -
  from assms obtain t where t: "t \<in> set ts" and tk: "tk \<in> set (open_br (f ! 0) t)"
    and np: "tk \<noteq> Pa (f ! 1)"
    by (auto simp: strip_toks_def)
  show ?thesis
  proof (cases "t = Br (f ! 0)")
    case True
    with tk show ?thesis by (auto simp: open_br_def)
  next
    case False
    with tk have "tk = t" by (simp add: open_br_def)
    with False t np show ?thesis by simp
  qed
qed

lemma foldl_strip_toks_left:
  "tk \<in> set (foldl strip_toks ts founds) \<Longrightarrow>
     (\<exists>c. tk = Ch c) \<or> (tk \<in> set ts \<and> (\<forall>f\<in>set founds. tk \<noteq> Br (f ! 0) \<and> tk \<noteq> Pa (f ! 1)))"
proof (induction founds arbitrary: ts)
  case Nil
  then show ?case by simp
next
  case (Cons f fs)
  from Cons.IH [of "strip_toks ts f"] Cons.prems
  have "(\<exists>c. tk = Ch c) \<or> (tk \<in> set (strip_toks ts f)
          \<and> (\<forall>f\<in>set fs. tk \<noteq> Br (f ! 0) \<and> tk \<noteq> Pa (f ! 1)))" by simp
  with strip_toks_left [of tk ts f] show ?case by auto
qed

lemma toks_of_blocks:
  "tk \<in> set (toks_of ps) \<Longrightarrow>
     (\<exists>c. tk = Ch c) \<or> (\<exists>f\<in>set (occurrences ps). tk = Br (f ! 0) \<or> tk = Pa (f ! 1))"
  by (induction ps rule: toks_of.induct) auto

lemma chars_only: "\<forall>tk\<in>set ts. \<exists>c. tk = Ch c \<Longrightarrow> concat (map tok_text ts) = concat (map erase ts)"
  by (induction ts) auto

lemma render_toks: "render ps = concat (map tok_text (toks_of ps))"
proof (induction ps rule: render.induct)
  case (2 p ps)
  have "concat (map tok_text (map Ch p)) = p" by (induction p) auto
  with 2 show ?case by simp
qed simp_all

lemma erase_toks_of: "concat (map erase (toks_of ps)) = plain_text ps"
proof (induction ps rule: toks_of.induct)
  case (2 p ps)
  have "concat (map erase (map Ch p)) = p" by (induction p) auto
  with 2 show ?case by simp
qed simp_all

lemma well_formed_toks: "well_formed ps \<Longrightarrow> \<forall>tk\<in>set (toks_of ps). tok_ok tk"
  by (induction ps rule: toks_of.induct) (auto simp: delimiter_free_def)

lemma well_formed_occurrences: "well_formed ps \<Longrightarrow> \<forall>f\<in>set (occurrences ps). plain_found f"
  by (induction ps rule: occurrences.induct) (auto simp: plain_found_def)

lemma well_formed_plain: "well_formed ps \<Longrightarrow> delimiter_free (plain_text ps)"
  by (induction ps rule: plain_text.induct) (auto simp: delimiter_free_def)

lemma strip_foldl_well_formed:
  assumes "well_formed ps"
  shows "foldl strip_found (render ps) (occurrences ps) = plain_text ps"
proof -
  let ?final = "foldl strip_toks (toks_of ps) (occurrences ps)"
  have "\<forall>tk\<in>set ?final. \<exists>c. tk = Ch c"
  proof
    fix tk assume "tk \<in> set ?final"
    from foldl_strip_toks_left [OF this] toks_of_blocks [of tk ps]
    show "\<exists>c. tk = Ch c" by blast
  qed
  then have "concat (map tok_text ?final) = concat (map erase ?final)" by (rule chars_only)
  also have "\<dots> = plain_text ps" by (simp only: erase_foldl erase_toks_of)
  finally show ?thesis
    using foldl_strip_toks [OF well_formed_toks [OF assms] well_formed_occurrences [OF assms]]
    by (simp only: render_toks)
qed

lemma match_field_lit_exact:
  assumes "x \<noteq> []" "c \<notin> set x" "match_parts ps s' = Some (fs, r)"
  shows "match_parts (Field # Lit c # ps) (x @ c # s') = Some (x # fs, r)"
proof -
  have "match_parts (Field # Lit c # ps) (x @ c # s') = Some (take (length x) (x @ c # s') # fs, r)"
  proof (rule match_field_first)
    show "1 \<le> length x" using assms(1) by (cases x) auto
    show "length x \<le> length (x @ c # s')" by simp
    show "match_parts (Lit c # ps) (drop (length x) (x @ c # s')) = Some (fs, r)"
      using assms(3) by simp
  next
    fix j assume j: "1 \<le> j" "j < length x"
    then have "drop j (x @ c # s') = x ! j # drop (Suc j) x @ c # s'"
      by (simp add: Cons_nth_drop_Suc)
    moreover from j assms(2) have "x ! j \<noteq> c" by (metis nth_mem)
    ultimately show "match_parts (Lit c # ps) (drop j (x @ c # s')) = None" by simp
  qed
  then show ?thesis by simp
qed

lemma match_annotation_exact:
  assumes "x \<noteq> []" "y \<noteq> []" "CHR '']'' \<notin> set x" "CHR '')'' \<notin> set y"
  shows "match_parts annotation_format (''['' @ x @ '']('' @ y @ '')'' @ r) = Some ([x, y], r)"
proof -
  have "match_parts [Field, Lit CHR '')''] (y @ CHR '')'' # r) = Some ([y], r)"
    using match_field_lit_exact [OF assms(2,4), of "[]" r "[]" r] by simp
  then have "match_parts [Lit CHR ''('', Field, Lit CHR '')''] (CHR ''('' # y @ CHR '')'' # r) = Some ([y], r)"
    by simp
  from match_field_lit_exact [OF assms(1,3) this]
  show ?thesis by (simp add: annotation_format_def)
qed

lemma search_skip_plain:
  "CHR ''['' \<notin> set p \<Longrightarrow> search annotation_format (p @ s) = search annotation_format s"
  by (induction p) (auto simp: annotation_format_def)

lemma findall_render: "well_formed ps \<Longrightarrow> findall annotation_format (render ps) = occurrences ps"
proof (induction ps rule: render.induct)
  case 1
  show ?case by (simp add: findall_Nil annotation_format_def)
next
  case (2 p ps)
  then have "CHR ''['' \<notin> set p" and IH: "findall annotation_format (render ps) = occurrences ps"
    by (simp_all add: delimiter_free_def)
  from search_skip_plain [OF this(1), of "render ps"] IH
  show ?case
    by (simp add: findall_annotation [of "p @ render ps"] findall_annotation [of "render ps"])
next
  case (3 x y ps)
  then have m: "match_parts annotation_format (render (Annot x y # ps)) = Some ([x, y], render ps)"
    using match_annotation_exact [of x y "render ps"] by (simp add: delimiter_free_def)
  have s: "search annotation_format (render (Annot x y # ps)) = Some ([x, y], render ps)"
  proof -
    obtain c cs where "render (Annot x y # ps) = c # cs" by simp
    with m show ?thesis by simp
  qed
  have "findall annotation_format (render (Annot x y # ps))
          = [x, y] # findall annotation_format (render ps)"
    by (subst findall_annotation) (simp only: s option.case prod.case)
  with 3 show ?case by (simp del: render.simps)
qed

lemma strip_text_well_formed: "well_formed ps \<Longrightarrow> strip_text (render ps) = plain_text ps"
  by (simp add: strip_text_def findall_render strip_foldl_well_formed)

lemma delimiter_free_no_block:
  assumes "delimiter_free s"
  shows "\<not> sublist (''['' @ x @ '']'') s \<and> \<not> sublist (''('' @ y @ '')'') s"
proof -
  have "CHR ''['' \<in> set s" if "sublist (''['' @ x @ '']'') s"
    using set_mono_sublist [OF that] by auto
  moreover have "CHR ''('' \<in> set s" if "sublist (''('' @ y @ '')'') s"
    using set_mono_sublist [OF that] by auto
  ultimately show ?thesis using assms by (auto simp: delimiter_free_def)
qed

text \<open>
  C6, as the claim states it, fails: \<open>[a](b) ((b)b)\<close> holds the one occurrence
  \<open>[a](b)\<close>, and removing every literal \<open>(b)\<close> turns \<open>((b)b)\<close> into a new
  \<open>(b)\<close>, which stays in the output.
\<close>

theorem strip_leaves_paren_counterexample:
  "findall annotation_format ''[a](b) ((b)b)'' = [[''a'', ''b'']]
   \<and> replace_ent_assignment [''[a](b) ((b)b)''] = [''a (b)'']
   \<and> sublist ''(b)'' ''a (b)''"
  by code_simp

text \<open>
  C6, amended. For every text made of \<open>k\<close> occurrences \<open>[x](y)\<close>, with \<open>x\<close>
  and \<open>y\<close> non-empty and free of the characters \<open>[\<close>, \<open>]\<close>, \<open>(\<close>, \<open>)\<close>,
  set in plain text free of those characters, the matches are exactly these occurrences,
  the output is the text with each occurrence replaced by its \<open>x\<close>, and it holds
  neither \<open>[x]\<close> nor \<open>(y)\<close> for any matched \<open>x\<close> and \<open>y\<close>. In particular
  \<open>[python](proglang) and [pandas](package)\<close> becomes \<open>python and pandas\<close>.
\<close>

theorem strip_well_formed:
  "well_formed ps \<Longrightarrow>
     findall annotation_format (render ps) = occurrences ps
     \<and> replace_ent_assignment [render ps] = [plain_text ps]
     \<and> (\<forall>f\<in>set (occurrences ps).
           \<not> sublist (''['' @ f ! 0 @ '']'') (plain_text ps)
           \<and> \<not> sublist (''('' @ f ! 1 @ '')'') (plain_text ps))
     \<and> replace_ent_assignment [''[python](proglang) and [pandas](package)'']
         = [''python and pandas'']"
proof -
  assume wf: "well_formed ps"
  have ex: "replace_ent_assignment [''[python](proglang) and [pandas](package)'']
              = [''python and pandas'']" by code_simp
  from wf have a: "findall annotation_format (render ps) = occurrences ps"
    by (rule findall_render)
  from wf have b: "replace_ent_assignment [render ps] = [plain_text ps]"
    by (simp add: replace_ent_assignment_def strip_text_well_formed)
  from delimiter_free_no_block [OF well_formed_plain [OF wf]]
  have c: "\<forall>f\<in>set (occurrences ps).
           \<not> sublist (''['' @ f ! 0 @ '']'') (plain_text ps)
           \<and> \<not> sublist (''('' @ f ! 1 @ '')'') (plain_text ps)"
    by blast
  from a b c ex show ?thesis by blast
qed

theorem strip_well_formed_witness:
  "well_formed [Annot ''python'' ''proglang'', Plain '' and '', Annot ''pandas'' ''package'']
   \<and> render [Annot ''python'' ''proglang'', Plain '' and '', Annot ''pandas'' ''package'']
       = ''[python](proglang) and [pandas](package)''
   \<and> findall annotation_format ''[python](proglang) and [pandas](package)''
       = [[''python'', ''proglang''], [''pandas'', ''package'']]
   \<and> replace_ent_assignment [''[python](proglang) and [pandas](package)'']
       = [''python and pandas'']
   \<and> \<not> sublist ''[python]'' ''python and pandas''
   \<and> \<not> sublist ''(proglang)'' ''python and pandas''
   \<and> \<not> sublist ''[pandas]'' ''python and pandas''
   \<and> \<not> sublist ''(package)'' ''python and pandas''"
proof -
  have wf: "well_formed
              [Annot ''python'' ''proglang'', Plain '' and '', Annot ''pandas'' ''package'']"
    by (simp add: delimiter_free_def)
  from strip_well_formed [OF wf] wf show ?thesis by simp
qed

end
